theory Spec2Isabelle
  imports Complex_Main
begin

section \<open>Lattice pattern engine of mcSIM (dmd_patterns.py)\<close>

text \<open>
  The development embeds the functions of \<^verbatim>\<open>src/mcsim/analysis/dmd_patterns.py\<close>
  that generate and binarize DMD patterns. NumPy arrays of floats are modelled with exact
  rational arithmetic: a float holding an integer or a small fraction is the rational number
  of the same value, and round-off is not modelled. Every \<^verbatim>\<open>raise\<close> of the source and
  every exception NumPy raises on the modelled paths is a constructor of \<open>error\<close>.
\<close>

subsection \<open>Errors and NumPy primitives\<close>

datatype error =
    PatternOutOfRange     \<comment> \<open>ValueError: pattern values must be in [0, 1]\<close>
  | InvalidMode           \<comment> \<open>ValueError: mode must be 'floyd-steinberg', ...\<close>
  | IndexError            \<comment> \<open>NumPy: index out of bounds\<close>
  | NameError             \<comment> \<open>a local variable read before assignment\<close>
  | BinomialDomain        \<comment> \<open>np.random.binomial: p < 0, p > 1\<close>
  | ZeroDivisionError     \<comment> \<open>Python division by zero\<close>
  | NotInteger            \<comment> \<open>ValueError: At least one component of vec_a or vec_b cannot be interpreted as an integer\<close>
  | LinearlyDependent     \<comment> \<open>ValueError: vec_a and vec_b are linearly dependent\<close>
  | PhaseDivisibility     \<comment> \<open>ValueError: At least one component of vec_b was not divisible by nphases\<close>
  | PhaseCellMismatch     \<comment> \<open>ValueError: Cell does not have appropriate number of 'on' pixels\<close>
  | AssertionError        \<comment> \<open>a failed assert\<close>
  | TypeError             \<comment> \<open>int() of an array that does not hold one element\<close>
  | EmptyReduction        \<comment> \<open>ValueError: np.min of an empty array\<close>
  | ShapeMismatch         \<comment> \<open>ValueError: arrays of different shapes\<close>
  | DegenerateReciprocal  \<comment> \<open>ValueError: vec_a_temp and vec_b_temp are linearly dependent\<close>
  | ConvertNotInteger     \<comment> \<open>ValueError: At least one component of va1, vb1, va2, or vb2 could not be interpreted as an integer\<close>
  | SingularMatrix        \<comment> \<open>np.linalg.LinAlgError: Singular matrix\<close>
  | OverflowError         \<comment> \<open>int() of a float that is not finite\<close>

type_synonym gray = "rat list list"
type_synonym bitmap = "bool list list"

text \<open>\<^verbatim>\<open>np.round\<close>: round to the nearest integer, ties to the even one.\<close>

definition np_round :: "rat \<Rightarrow> int" where
  "np_round q =
     (let f = \<lfloor>q\<rfloor>; d = q - of_int f
      in if d < 1 / 2 then f else if 1 / 2 < d then f + 1 else if even f then f else f + 1)"

text \<open>Storing a float into a boolean array: every nonzero value is \<open>True\<close>.\<close>

definition to_bool :: "int \<Rightarrow> bool" where
  "to_bool k = (k \<noteq> 0)"

definition np_any :: "gray \<Rightarrow> bool" where
  "np_any g = list_ex (list_ex (\<lambda>v. v \<noteq> 0)) g"

definition ebind :: "error + 'a \<Rightarrow> ('a \<Rightarrow> error + 'b) \<Rightarrow> error + 'b" where
  "ebind m f = (case m of Inl e \<Rightarrow> Inl e | Inr x \<Rightarrow> f x)"

text \<open>A \<^verbatim>\<open>for\<close> loop over a list of indices that stops at the first exception.\<close>

fun for_each :: "'i list \<Rightarrow> ('i \<Rightarrow> 's \<Rightarrow> error + 's) \<Rightarrow> 's \<Rightarrow> error + 's" where
  "for_each [] body s = Inr s"
| "for_each (i # is) body s = ebind (body i s) (for_each is body)"

text \<open>
  A 2-D array is the list of its rows; \<open>shape_ny\<close> and \<open>shape_nx\<close> are
  \<^verbatim>\<open>pattern_gray.shape\<close>. Reads and in-place updates with non-negative indices raise
  IndexError out of range, as NumPy does.
\<close>

definition shape_ny :: "'a list list \<Rightarrow> nat" where
  "shape_ny a = length a"

definition shape_nx :: "'a list list \<Rightarrow> nat" where
  "shape_nx a = (case a of [] \<Rightarrow> 0 | r # _ \<Rightarrow> length r)"

definition get_at :: "'a list list \<Rightarrow> nat \<Rightarrow> nat \<Rightarrow> error + 'a" where
  "get_at a i j = (if i < length a \<and> j < length (a ! i) then Inr (a ! i ! j) else Inl IndexError)"

definition set_at :: "'a list list \<Rightarrow> nat \<Rightarrow> nat \<Rightarrow> 'a \<Rightarrow> error + 'a list list" where
  "set_at a i j v =
     (if i < length a \<and> j < length (a ! i) then Inr (a[i := (a ! i)[j := v]]) else Inl IndexError)"

definition add_at :: "gray \<Rightarrow> nat \<Rightarrow> nat \<Rightarrow> rat \<Rightarrow> error + gray" where
  "add_at g i j v = ebind (get_at g i j) (\<lambda>old. set_at g i j (old + v))"

definition add_if :: "bool \<Rightarrow> gray \<Rightarrow> nat \<Rightarrow> nat \<Rightarrow> rat \<Rightarrow> error + gray" where
  "add_if c g i j v = (if c then add_at g i j v else Inr g)"

subsection \<open>binarize\<close>

text \<open>
  The guard of \<^verbatim>\<open>binarize\<close>, as written:
  \<^verbatim>\<open>if np.any(pattern_gray) > 1 or np.any(pattern_gray) < 0\<close>. \<^verbatim>\<open>np.any\<close> returns a
  boolean, which the comparison reads as 0 or 1.
\<close>

definition range_guard :: "gray \<Rightarrow> bool" where
  "range_guard g = ((of_bool (np_any g) :: int) > 1 \<or> (of_bool (np_any g) :: int) < 0)"

text \<open>
  One pixel of the Floyd-Steinberg loop (lines 1552-1563). The bound on the lower-right
  term is \<^verbatim>\<open>jj < (ny - 1)\<close> in the source.
\<close>

definition fs_pixel :: "int \<Rightarrow> int \<Rightarrow> nat \<Rightarrow> nat \<Rightarrow> gray \<times> bitmap \<Rightarrow> error + (gray \<times> bitmap)" where
  "fs_pixel ny nx ii jj st =
     (case st of (g, b) \<Rightarrow>
        ebind (get_at g ii jj) (\<lambda>v.
        ebind (set_at b ii jj (to_bool (np_round v))) (\<lambda>b'.
        let err = v - of_bool (to_bool (np_round v)) in
        ebind (add_if (int jj < nx - 1) g ii (jj + 1) (err * 7 / 16)) (\<lambda>g1.
        if int ii < ny - 1 then
          ebind (add_if (jj > 0) g1 (ii + 1) (jj - 1) (err * 3 / 16)) (\<lambda>g2.
          ebind (add_at g2 (ii + 1) jj (err * 5 / 16)) (\<lambda>g3.
          ebind (add_if (int jj < ny - 1) g3 (ii + 1) (jj + 1) (err * 1 / 16)) (\<lambda>g4.
          Inr (g4, b'))))
        else Inr (g1, b')))))"

definition floyd_steinberg :: "gray \<Rightarrow> error + bitmap" where
  "floyd_steinberg g =
     (let ny = shape_ny g; nx = shape_nx g;
          b0 = replicate ny (replicate nx False)
      in ebind (for_each [0..<ny] (\<lambda>ii. for_each [0..<nx] (fs_pixel (int ny) (int nx) ii)) (g, b0))
           (\<lambda>st. Inr (snd st)))"

text \<open>
  The Jarvis-Judice-Ninke branch (lines 1569-1607). The block for row \<open>ii + 2\<close> stands
  after the inner loop in the source, so it runs once per row with the last values of
  \<^verbatim>\<open>jj\<close> and \<^verbatim>\<open>err\<close>; these are the third component of the state, \<open>None\<close> while
  unassigned.
\<close>

definition jjn_pixel ::
  "int \<Rightarrow> int \<Rightarrow> nat \<Rightarrow> nat \<Rightarrow> gray \<times> bitmap \<times> (nat \<times> rat) option
     \<Rightarrow> error + (gray \<times> bitmap \<times> (nat \<times> rat) option)" where
  "jjn_pixel ny nx ii jj st =
     (case st of (g, b, _) \<Rightarrow>
        ebind (get_at g ii jj) (\<lambda>v.
        ebind (set_at b ii jj (to_bool (np_round v))) (\<lambda>b'.
        let err = v - of_bool (to_bool (np_round v)) in
        ebind (add_if (int jj < nx - 1) g ii (jj + 1) (err * 7 / 48)) (\<lambda>g1.
        ebind (add_if (int jj < nx - 2) g1 ii (jj + 2) (err * 5 / 48)) (\<lambda>g2.
        if int ii < ny - 1 then
          ebind (add_if (jj > 1) g2 (ii + 1) (jj - 2) (err * 3 / 48)) (\<lambda>g3.
          ebind (add_if (jj > 0) g3 (ii + 1) (jj - 1) (err * 5 / 48)) (\<lambda>g4.
          ebind (add_at g4 (ii + 1) jj (err * 7 / 48)) (\<lambda>g5.
          ebind (add_if (int jj < ny - 1) g5 (ii + 1) (jj + 1) (err * 5 / 48)) (\<lambda>g6.
          ebind (add_if (int jj < ny - 2) g6 (ii + 1) (jj + 2) (err * 3 / 48)) (\<lambda>g7.
          Inr (g7, b', Some (jj, err)))))))
        else Inr (g2, b', Some (jj, err)))))))"

definition jjn_row_tail ::
  "int \<Rightarrow> nat \<Rightarrow> gray \<times> bitmap \<times> (nat \<times> rat) option
     \<Rightarrow> error + (gray \<times> bitmap \<times> (nat \<times> rat) option)" where
  "jjn_row_tail ny ii st =
     (case st of (g, b, stale) \<Rightarrow>
        if int ii < ny - 2 then
          (case stale of
             None \<Rightarrow> Inl NameError
           | Some (jj, err) \<Rightarrow>
               ebind (add_if (jj > 1) g (ii + 2) (jj - 2) (err * 1 / 48)) (\<lambda>g1.
               ebind (add_if (jj > 0) g1 (ii + 2) (jj - 1) (err * 3 / 48)) (\<lambda>g2.
               ebind (add_at g2 (ii + 2) jj (err * 5 / 48)) (\<lambda>g3.
               ebind (add_if (int jj < ny - 1) g3 (ii + 2) (jj + 1) (err * 3 / 48)) (\<lambda>g4.
               ebind (add_if (int jj < ny - 2) g4 (ii + 2) (jj + 2) (err * 1 / 48)) (\<lambda>g5.
               Inr (g5, b, stale)))))))
        else Inr st)"

definition jjn :: "gray \<Rightarrow> error + bitmap" where
  "jjn g =
     (let ny = shape_ny g; nx = shape_nx g;
          b0 = replicate ny (replicate nx False)
      in ebind (for_each [0..<ny]
                  (\<lambda>ii st. ebind (for_each [0..<nx] (jjn_pixel (int ny) (int nx) ii) st)
                                  (jjn_row_tail (int ny) ii))
                  (g, b0, None))
           (\<lambda>st. Inr (fst (snd st))))"

text \<open>
  \<^verbatim>\<open>np.random.binomial(1, pattern_gray)\<close> raises when a probability is outside [0, 1];
  otherwise its draws are the parameter \<open>draws\<close>.
\<close>

definition random_dither :: "gray \<Rightarrow> bitmap \<Rightarrow> error + bitmap" where
  "random_dither g draws =
     (if list_ex (list_ex (\<lambda>p. p < 0 \<or> 1 < p)) g then Inl BinomialDomain else Inr draws)"

definition round_dither :: "gray \<Rightarrow> bitmap" where
  "round_dither g = map (map (\<lambda>v. to_bool (np_round v))) g"

definition binarize :: "gray \<Rightarrow> string \<Rightarrow> bitmap \<Rightarrow> error + bitmap" where
  "binarize pattern_gray mode draws =
     (if range_guard pattern_gray then Inl PatternOutOfRange
      else if mode = ''floyd-steinberg'' then floyd_steinberg pattern_gray
      else if mode = ''jjn'' then jjn pattern_gray
      else if mode = ''random'' then random_dither pattern_gray draws
      else if mode = ''round'' then Inr (round_dither pattern_gray)
      else Inl InvalidMode)"

text \<open>
  The Floyd-Steinberg kernel as the specification words it: each of the four terms is
  added exactly when its target pixel lies inside the \<open>ny\<close>-by-\<open>nx\<close> array.
\<close>

definition fs_pixel_spec :: "int \<Rightarrow> int \<Rightarrow> nat \<Rightarrow> nat \<Rightarrow> gray \<times> bitmap \<Rightarrow> error + (gray \<times> bitmap)" where
  "fs_pixel_spec ny nx ii jj st =
     (case st of (g, b) \<Rightarrow>
        ebind (get_at g ii jj) (\<lambda>v.
        ebind (set_at b ii jj (to_bool (np_round v))) (\<lambda>b'.
        let err = v - of_bool (to_bool (np_round v)) in
        ebind (add_if (int jj + 1 < nx) g ii (jj + 1) (err * 7 / 16)) (\<lambda>g1.
        ebind (add_if (int ii + 1 < ny \<and> jj > 0) g1 (ii + 1) (jj - 1) (err * 3 / 16)) (\<lambda>g2.
        ebind (add_if (int ii + 1 < ny) g2 (ii + 1) jj (err * 5 / 16)) (\<lambda>g3.
        ebind (add_if (int ii + 1 < ny \<and> int jj + 1 < nx) g3 (ii + 1) (jj + 1) (err * 1 / 16)) (\<lambda>g4.
        Inr (g4, b'))))))))"

definition floyd_steinberg_spec :: "gray \<Rightarrow> error + bitmap" where
  "floyd_steinberg_spec g =
     (let ny = shape_ny g; nx = shape_nx g;
          b0 = replicate ny (replicate nx False)
      in ebind (for_each [0..<ny] (\<lambda>ii. for_each [0..<nx] (fs_pixel_spec (int ny) (int nx) ii)) (g, b0))
           (\<lambda>st. Inr (snd st)))"

subsection \<open>find_rational_approx_angle\<close>

text \<open>
  A fraction is the two-element list \<^verbatim>\<open>[num, denom]\<close> of the source, here a pair.
  \<open>frac_val\<close> is the float \<^verbatim>\<open>num / denom\<close>; Python raises ZeroDivisionError on a zero
  denominator, which the callers below check before they use \<open>frac_val\<close>.
\<close>

type_synonym fraction = "int \<times> int"

definition frac_val :: "fraction \<Rightarrow> rat" where
  "frac_val fr = of_int (fst fr) / of_int (snd fr)"

text \<open>
  Lines 2022-2029 and 2034-2041: the new bound is appended when the sequence is empty or
  when it is at least as close to the slope as the last recorded fraction.
\<close>

definition record_bound :: "rat \<Rightarrow> fraction \<Rightarrow> fraction list \<Rightarrow> error + fraction list" where
  "record_bound slope fr approximate_seq =
     (if approximate_seq = [] then Inr (approximate_seq @ [fr])
      else if snd (last approximate_seq) = 0 then Inl ZeroDivisionError
      else if \<bar>frac_val fr - slope\<bar> \<le> \<bar>frac_val (last approximate_seq) - slope\<bar>
           then Inr (approximate_seq @ [fr])
           else Inr approximate_seq)"

text \<open>
  The \<^verbatim>\<open>while True\<close> loop of lines 2007-2041 on the state
  (\<^verbatim>\<open>fr_lb\<close>, \<^verbatim>\<open>fr_ub\<close>, \<^verbatim>\<open>approximate_seq\<close>). Not returning is the value \<open>None\<close>.
\<close>

partial_function (option) farey_loop ::
  "rat \<Rightarrow> int \<Rightarrow> fraction \<Rightarrow> fraction \<Rightarrow> fraction list \<Rightarrow> (error + fraction list) option" where
  "farey_loop slope nmax fr_lb fr_ub approximate_seq =
     (let mediant_num = fst fr_lb + fst fr_ub;
          mediant_denom = snd fr_lb + snd fr_ub
      in if mediant_denom \<ge> nmax then Some (Inr approximate_seq)
         else if mediant_denom = 0 then Some (Inl ZeroDivisionError)
         else
           let m = (mediant_num, mediant_denom);
               hit = (frac_val m = slope);
               ub1 = (if hit then m else fr_ub);
               lb1 = (if hit then m else fr_lb);
               seq1 = (if hit then approximate_seq @ [m] else approximate_seq)
           in if frac_val m > slope
              then (case record_bound slope m seq1 of
                      Inl e \<Rightarrow> Some (Inl e)
                    | Inr seq2 \<Rightarrow> farey_loop slope nmax lb1 m seq2)
              else (case record_bound slope m seq1 of
                      Inl e \<Rightarrow> Some (Inl e)
                    | Inr seq2 \<Rightarrow> farey_loop slope nmax m ub1 seq2))"

declare farey_loop.simps [code]

text \<open>
  Lines 2043-2057: undo the inversion of the slope (\<^verbatim>\<open>np.flip\<close>) and give the
  components the signs of the quadrant \<^verbatim>\<open>case\<close>.
\<close>

definition orient :: "bool \<Rightarrow> nat \<Rightarrow> fraction \<Rightarrow> error + fraction" where
  "orient slope_inverted quadrant fr =
     (let s = (if slope_inverted then (snd fr, fst fr) else fr)
      in if quadrant = 1 then Inr (- fst s, snd s)
         else if quadrant = 2 then Inr (- fst s, - snd s)
         else if quadrant = 3 then Inr (fst s, - snd s)
         else if quadrant = 4 then Inr (fst s, snd s)
         else Inl NameError)"

fun orient_all :: "bool \<Rightarrow> nat \<Rightarrow> fraction list \<Rightarrow> error + fraction list" where
  "orient_all flipped quadrant [] = (if quadrant \<in> {1, 2, 3, 4} then Inr [] else Inl NameError)"
| "orient_all flipped quadrant (fr # frs) =
     ebind (orient flipped quadrant fr) (\<lambda>v.
     ebind (orient_all flipped quadrant frs) (\<lambda>vs. Inr (v # vs)))"

text \<open>
  find_rational_approx_angle from line 1996 on. The reduction of the angle to a quadrant
  and \<^verbatim>\<open>np.tan\<close> are not modelled: \<open>tan_angle_pos\<close> is the value of
  \<^verbatim>\<open>np.tan(angle_pos)\<close> and \<open>quadrant\<close> the value of \<^verbatim>\<open>case\<close>. The result is
  \<^verbatim>\<open>(xshift, yshift, vecs)\<close>; \<^verbatim>\<open>vecs[-1]\<close> raises IndexError on an empty list.
\<close>

definition farey_slope :: "rat \<Rightarrow> rat" where
  "farey_slope tan_angle_pos = (if tan_angle_pos > 1 then 1 / tan_angle_pos else tan_angle_pos)"

definition find_rational_approx_angle ::
  "rat \<Rightarrow> nat \<Rightarrow> int \<Rightarrow> (error + int \<times> int \<times> fraction list) option" where
  "find_rational_approx_angle tan_angle_pos quadrant nmax =
     (let slope_inverted = (tan_angle_pos > 1);
          slope = farey_slope tan_angle_pos
      in case farey_loop slope nmax (0, 1) (1, 1) [] of
           None \<Rightarrow> None
         | Some (Inl e) \<Rightarrow> Some (Inl e)
         | Some (Inr approximate_seq) \<Rightarrow>
             Some (ebind (orient_all slope_inverted quadrant approximate_seq) (\<lambda>vecs.
                   if vecs = [] then Inl IndexError
                   else Inr (fst (last vecs), snd (last vecs), vecs))))"





subsection \<open>Lattice vectors and reduce_basis\<close>

type_synonym vec = "int \<times> int"

definition cross :: "vec \<Rightarrow> vec \<Rightarrow> int" where
  "cross a b = fst a * snd b - snd a * fst b"

definition dot :: "vec \<Rightarrow> vec \<Rightarrow> int" where
  "dot a b = fst a * fst b + snd a * snd b"

text \<open>\<^verbatim>\<open>np.linalg.norm(v)**2\<close>, the squared length.\<close>

definition norm2 :: "vec \<Rightarrow> int" where
  "norm2 a = dot a a"






subsection \<open>Unit cells: test_in_cell, get_unit_cell, get_sim_unit_cell\<close>

text \<open>
  A vector handed to the cell functions is a list or array of two numbers that need not
  be integers, a pair of rationals. \<^verbatim>\<open>float(v).is_integer()\<close> is \<open>is_integer\<close>;
  \<^verbatim>\<open>np.array(v, dtype=int)\<close> truncates towards zero.
\<close>

type_synonym rvec = "rat \<times> rat"

definition is_integer :: "rat \<Rightarrow> bool" where
  "is_integer q = (of_int \<lfloor>q\<rfloor> = q)"

definition trunc_int :: "rat \<Rightarrow> int" where
  "trunc_int q = (if 0 \<le> q then \<lfloor>q\<rfloor> else \<lceil>q\<rceil>)"

definition as_int_vec :: "rvec \<Rightarrow> vec" where
  "as_int_vec v = (trunc_int (fst v), trunc_int (snd v))"

definition of_int_vec :: "vec \<Rightarrow> rvec" where
  "of_int_vec v = (of_int (fst v), of_int (snd v))"

definition components :: "rvec \<Rightarrow> rat list" where
  "components v = [fst v, snd v]"

text \<open>
  A cell is a 2-D float array; \<open>None\<close> is NaN, the mark of a pixel outside the unit
  cell. A cell comes with the coordinates of its columns and rows.
\<close>

type_synonym cell = "rat option list list"
type_synonym cell_xy = "cell \<times> int list \<times> int list"

text \<open>\<^verbatim>\<open>np.round(v, precision)\<close> with \<^verbatim>\<open>precision = 12\<close> decimals.\<close>

definition precision :: nat where
  "precision = 12"

definition round_dec :: "rat \<Rightarrow> rat" where
  "round_dec q = of_int (np_round (q * 10 ^ precision)) / 10 ^ precision"

text \<open>
  The local function \<^verbatim>\<open>line(x, p1, p2)\<close> of test_in_cell: the height at \<open>x\<close> of the
  line through \<open>p1\<close> and \<open>p2\<close>. The callers take it only where the denominator is not 0.
\<close>

definition line :: "int \<Rightarrow> vec \<Rightarrow> vec \<Rightarrow> rat" where
  "line x p1 p2 =
     of_int ((snd p2 - snd p1) * x + snd p1 * fst p2 - fst p1 * snd p2) / of_int (fst p2 - fst p1)"

definition vadd :: "vec \<Rightarrow> vec \<Rightarrow> vec" where
  "vadd a b = (fst a + fst b, snd a + snd b)"

text \<open>
  One pair of parallel edges of test_in_cell (lines 390-402 with \<open>v = va\<close>, \<open>w = vb\<close>;
  lines 405-417 with \<open>v = vb\<close>, \<open>w = va\<close>): the point is between the line through 0 and
  \<open>v\<close> and the line through \<open>w\<close> and \<open>v + w\<close>, or on the first, and not on the second.
\<close>

definition in_strip :: "int \<times> int \<Rightarrow> vec \<Rightarrow> vec \<Rightarrow> bool" where
  "in_strip point v w =
     (let x = fst point; y = snd point;
          gthan_1 = (if fst v \<noteq> 0 then round_dec (line x (0, 0) v) > round_dec (of_int y)
                     else round_dec (of_int x) > 0);
          eq_1 = (if fst v \<noteq> 0 then round_dec (line x (0, 0) v) = round_dec (of_int y)
                  else round_dec (of_int x) = 0);
          gthan_2 = (if fst v \<noteq> 0 then round_dec (line x w (vadd v w)) > round_dec (of_int y)
                     else round_dec (of_int x) > round_dec (of_int (fst w)));
          eq_2 = (if fst v \<noteq> 0 then round_dec (line x w (vadd v w)) = round_dec (of_int y)
                  else round_dec (of_int x) = round_dec (of_int (fst w)))
      in (gthan_1 \<noteq> gthan_2 \<or> eq_1) \<and> \<not> eq_2)"

definition test_in_cell :: "int \<times> int \<Rightarrow> vec \<Rightarrow> vec \<Rightarrow> bool" where
  "test_in_cell point va vb = (in_strip point va vb \<and> in_strip point vb va)"

text \<open>
  The coordinate ranges of get_unit_cell (lines 327-342): \<^verbatim>\<open>range(d)\<close> shifted so
  that 0 is inside.
\<close>

definition cell_coords :: "int \<Rightarrow> int \<Rightarrow> int list" where
  "cell_coords a b =
     (let d = \<bar>a\<bar> + \<bar>b\<bar>;
          shift = (if a < 0 \<and> b \<ge> 0 then a + 1
                   else if a \<ge> 0 \<and> b < 0 then b + 1
                   else if a < 0 \<and> b < 0 then a + b + 1
                   else 0)
      in map (\<lambda>i. int i + shift) [0..<nat d])"

definition count_cells :: "cell \<Rightarrow> nat" where
  "count_cells c = length (filter (\<lambda>v. v \<noteq> None) (concat c))"

text \<open>
  get_unit_cell (lines 308-357). The integrality test is the loop
  \<^verbatim>\<open>for vecs in [vec_a, vec_b]: for v in vec_a\<close> of the source. The final
  \<^verbatim>\<open>assert\<close> on the number of pixels is the error \<open>AssertionError\<close>.
\<close>

definition get_unit_cell :: "rvec \<Rightarrow> rvec \<Rightarrow> error + cell_xy" where
  "get_unit_cell vec_a vec_b =
     (if list_ex (\<lambda>v. \<not> is_integer v) (concat (map (\<lambda>vecs. components vec_a) [vec_a, vec_b]))
      then Inl NotInteger
      else
        let va = as_int_vec vec_a; vb = as_int_vec vec_b
        in if cross va vb = 0 then Inl LinearlyDependent
           else
             let x = cell_coords (fst va) (fst vb);
                 y = cell_coords (snd va) (snd vb);
                 cell_volume = \<bar>fst va * snd vb - snd va * fst vb\<bar>;
                 cell = map (\<lambda>yy. map (\<lambda>xx. if test_in_cell (xx, yy) va vb
                                               then Some 0 else None) x) y
             in if int (count_cells cell) = cell_volume then Inr (cell, x, y)
                else Inl AssertionError)"

text \<open>
  \<^verbatim>\<open>np.nansum\<close> of two stacked entries: NaN counts as 0, so the sum is never NaN.
\<close>

definition nansum2 :: "rat option \<Rightarrow> rat option \<Rightarrow> rat" where
  "nansum2 a b = (case a of None \<Rightarrow> 0 | Some u \<Rightarrow> u) + (case b of None \<Rightarrow> 0 | Some v \<Rightarrow> v)"

text \<open>The float addition \<open>c + v\<close> of an array entry and a number: NaN stays NaN.\<close>

definition nan_add :: "rat option \<Rightarrow> rat \<Rightarrow> rat option" where
  "nan_add c v = (case c of None \<Rightarrow> None | Some u \<Rightarrow> Some (u + v))"

text \<open>\<^verbatim>\<open>np.where(coords == v)\<close> followed by \<^verbatim>\<open>int(...)\<close>: the index of the one match.\<close>

definition index_of :: "int list \<Rightarrow> int \<Rightarrow> error + nat" where
  "index_of coords v =
     (case filter (\<lambda>i. coords ! i = v) [0..<length coords] of
        [i] \<Rightarrow> Inr i
      | _ \<Rightarrow> Inl TypeError)"

definition np_min :: "int list \<Rightarrow> error + int" where
  "np_min xs = (case xs of [] \<Rightarrow> Inl EmptyReduction | x # rest \<Rightarrow> Inr (fold min rest x))"

definition shape0 :: "cell \<Rightarrow> nat" where
  "shape0 c = length c"

definition shape1 :: "cell \<Rightarrow> nat" where
  "shape1 c = (case c of [] \<Rightarrow> 0 | r # _ \<Rightarrow> length r)"

text \<open>
  Line 277: \<^verbatim>\<open>cell[iy:iy_end, ix:ix_end] += np.nansum(np.concatenate((cell_sub, cell[...])))\<close>.
  The slice of \<open>cell\<close> is clipped to the array, and stacking it with a \<open>cell_sub\<close> of
  another shape raises ValueError.
\<close>

definition embed_sub :: "cell \<Rightarrow> cell \<Rightarrow> nat \<Rightarrow> nat \<Rightarrow> error + cell" where
  "embed_sub cell cell_sub iy_start ix_start =
     (if iy_start + shape0 cell_sub \<le> shape0 cell \<and> ix_start + shape1 cell_sub \<le> shape1 cell
      then Inr (map (\<lambda>i. map (\<lambda>j.
                  if iy_start \<le> i \<and> i < iy_start + shape0 cell_sub
                     \<and> ix_start \<le> j \<and> j < ix_start + shape1 cell_sub
                  then nan_add (cell ! i ! j)
                         (nansum2 (cell_sub ! (i - iy_start) ! (j - ix_start)) (cell ! i ! j))
                  else cell ! i ! j) [0..<shape1 cell]) [0..<shape0 cell])
      else Inl ShapeMismatch)"

definition cell_nansum :: "cell \<Rightarrow> rat" where
  "cell_nansum c = sum_list (map (\<lambda>v. case v of None \<Rightarrow> 0 | Some u \<Rightarrow> u) (concat c))"

definition count_nonneg :: "cell \<Rightarrow> nat" where
  "count_nonneg c = length (filter (\<lambda>v. case v of None \<Rightarrow> False | Some u \<Rightarrow> u \<ge> 0) (concat c))"

text \<open>
  The divisibility test of get_sim_pattern and get_sim_unit_cell:
  \<^verbatim>\<open>not (vec_b[0] / nphases).is_integer() or not (vec_b[1] / nphases).is_integer()\<close>;
  the division raises ZeroDivisionError for \<^verbatim>\<open>nphases = 0\<close>.
\<close>

definition not_divisible :: "rvec \<Rightarrow> int \<Rightarrow> bool" where
  "not_divisible vec_b nphases =
     (\<not> is_integer (fst vec_b / of_int nphases) \<or> \<not> is_integer (snd vec_b / of_int nphases))"

text \<open>
  get_sim_unit_cell up to line 278: the two divisibility tests, the full cell, the cell of
  \<open>vec_a\<close> and \<open>vec_b / nphases\<close> with its pixels set to 1, and its embedding into the
  full cell where the minimum coordinates match.
\<close>

definition sim_cell_construct :: "rvec \<Rightarrow> rvec \<Rightarrow> int \<Rightarrow> error + cell_xy" where
  "sim_cell_construct vec_a vec_b nphases =
     (if nphases = 0 then Inl ZeroDivisionError
      else if not_divisible vec_b nphases then Inl PhaseDivisibility
      else
        ebind (get_unit_cell vec_a vec_b) (\<lambda>(cell, x_cell, y_cell).
        let vec_b_sub = (fst vec_b / of_int nphases, snd vec_b / of_int nphases) in
        ebind (get_unit_cell vec_a vec_b_sub) (\<lambda>(cell_sub0, x_cell_sub, y_cell_sub).
        let cell_sub = map (map (\<lambda>v. case v of None \<Rightarrow> None | Some _ \<Rightarrow> Some 1)) cell_sub0 in
        ebind (np_min y_cell_sub) (\<lambda>ymin.
        ebind (index_of y_cell ymin) (\<lambda>iy_start.
        ebind (np_min x_cell_sub) (\<lambda>xmin.
        ebind (index_of x_cell xmin) (\<lambda>ix_start.
        ebind (embed_sub cell cell_sub iy_start ix_start) (\<lambda>cell'.
        Inr (cell', x_cell, y_cell)))))))))"

text \<open>
  The check of lines 280-282, \<^verbatim>\<open>np.nansum(cell) != np.sum(cell >= 0) / nphases\<close>, and
  get_sim_unit_cell as a whole.
\<close>

definition phase_check :: "int \<Rightarrow> cell_xy \<Rightarrow> error + cell_xy" where
  "phase_check nphases cxy =
     (if cell_nansum (fst cxy) \<noteq> of_nat (count_nonneg (fst cxy)) / of_int nphases
      then Inl PhaseCellMismatch
      else Inr cxy)"

definition get_sim_unit_cell :: "rvec \<Rightarrow> rvec \<Rightarrow> int \<Rightarrow> error + cell_xy" where
  "get_sim_unit_cell vec_a vec_b nphases =
     ebind (sim_cell_construct vec_a vec_b nphases) (phase_check nphases)"

text \<open>The number of pixels of a cell that are "on", that is, hold the value 1.\<close>

definition count_on :: "cell \<Rightarrow> nat" where
  "count_on c = length (filter (\<lambda>v. v = Some 1) (concat c))"

definition tri_state :: "cell \<Rightarrow> bool" where
  "tri_state c = list_all (\<lambda>v. v = None \<or> v = Some 0 \<or> v = Some 1) (concat c)"

subsection \<open>The half-open parallelogram\<close>

text \<open>
  \<open>in01 f D\<close> says that the quotient \<open>f / D\<close> lies in the half-open interval [0, 1).
  A point \<open>p\<close> is \<open>s va + t vb\<close> with \<open>t = cross va p / cross va vb\<close> and
  \<open>s = cross vb p / cross vb va\<close>, so \<open>in_parallelogram\<close> is the unit cell with the edges
  through 0 included and the far edges excluded. \<open>small_basis\<close> bounds the denominators
  of test_in_cell, so that rounding to 12 decimals cannot merge two distinct values.
\<close>

definition in01 :: "int \<Rightarrow> int \<Rightarrow> bool" where
  "in01 f D = ((0 \<le> f \<and> f < D) \<or> (D < f \<and> f \<le> 0))"

definition in_parallelogram :: "int \<times> int \<Rightarrow> vec \<Rightarrow> vec \<Rightarrow> bool" where
  "in_parallelogram p va vb = (in01 (cross va p) (cross va vb) \<and> in01 (cross vb p) (cross vb va))"

definition small_basis :: "vec \<Rightarrow> vec \<Rightarrow> bool" where
  "small_basis va vb = (\<bar>fst va\<bar> < 10 ^ precision \<and> \<bar>fst vb\<bar> < 10 ^ precision)"

subsection \<open>Reduction into the unit cell and conversion between bases\<close>











subsection \<open>double_cell\<close>








subsection \<open>tile_pattern and get_sim_pattern\<close>











section \<open>Theorems\<close>

subsection \<open>Exceptions that a computation cannot raise\<close>

lemma ebind_not_raised:
  "m \<noteq> Inl e \<Longrightarrow> (\<And>x. f x \<noteq> Inl e) \<Longrightarrow> ebind m f \<noteq> Inl e"
  by (cases m) (simp_all add: ebind_def)

lemma if_not_raised:
  "(c \<Longrightarrow> a \<noteq> Inl e) \<Longrightarrow> (\<not> c \<Longrightarrow> b \<noteq> Inl e) \<Longrightarrow> (if c then a else b) \<noteq> Inl e"
  by simp

lemma Inr_not_raised: "Inr x \<noteq> Inl e"
  by simp

lemma for_each_not_raised:
  "(\<And>i s. body i s \<noteq> Inl e) \<Longrightarrow> for_each js body s \<noteq> Inl e"
  by (induction js arbitrary: s) (simp_all add: ebind_not_raised)

lemma get_at_in_range: "get_at a i j \<noteq> Inl PatternOutOfRange"
  by (simp add: get_at_def)

lemma set_at_in_range: "set_at a i j v \<noteq> Inl PatternOutOfRange"
  by (simp add: set_at_def)

lemma add_at_in_range: "add_at g i j v \<noteq> Inl PatternOutOfRange"
  unfolding add_at_def by (intro ebind_not_raised get_at_in_range set_at_in_range)

lemma add_if_in_range: "add_if c g i j v \<noteq> Inl PatternOutOfRange"
  by (simp add: add_if_def add_at_in_range)

lemmas cell_ops_in_range =
  get_at_in_range set_at_in_range add_at_in_range add_if_in_range Inr_not_raised

lemma fs_pixel_in_range: "fs_pixel ny nx ii jj st \<noteq> Inl PatternOutOfRange"
proof (cases st)
  case (Pair g b)
  show ?thesis
    unfolding fs_pixel_def Pair prod.case Let_def
    by (intro ebind_not_raised if_not_raised cell_ops_in_range)
qed

lemma jjn_pixel_in_range: "jjn_pixel ny nx ii jj st \<noteq> Inl PatternOutOfRange"
proof (cases st)
  case (fields g b l)
  show ?thesis
    unfolding jjn_pixel_def fields prod.case Let_def
    by (intro ebind_not_raised if_not_raised cell_ops_in_range)
qed

lemma jjn_row_tail_in_range: "jjn_row_tail ny ii st \<noteq> Inl PatternOutOfRange"
proof (cases st)
  case (fields g b l)
  show ?thesis
  proof (cases l)
    case None
    then show ?thesis by (simp add: jjn_row_tail_def fields)
  next
    case (Some p)
    obtain jj err where p: "p = (jj, err)" by (cases p)
    show ?thesis
      unfolding jjn_row_tail_def fields Some p prod.case option.case
      by (intro ebind_not_raised if_not_raised cell_ops_in_range)
  qed
qed

lemma floyd_steinberg_in_range: "floyd_steinberg g \<noteq> Inl PatternOutOfRange"
  unfolding floyd_steinberg_def Let_def
  by (intro ebind_not_raised for_each_not_raised fs_pixel_in_range Inr_not_raised)

lemma jjn_in_range: "jjn g \<noteq> Inl PatternOutOfRange"
  unfolding jjn_def Let_def
  by (intro ebind_not_raised for_each_not_raised jjn_pixel_in_range jjn_row_tail_in_range Inr_not_raised)

lemma random_dither_in_range: "random_dither g draws \<noteq> Inl PatternOutOfRange"
  by (simp add: random_dither_def)

subsection \<open>binarize: the range guard\<close>

lemma range_guard_False: "\<not> range_guard g"
  by (simp add: range_guard_def)

text \<open>
  C10: for every 2-D array, also one with values outside [0, 1], every mode and every
  outcome of the random draws, binarize never raises its out-of-range error: the guard
  compares the boolean \<^verbatim>\<open>np.any(pattern_gray)\<close> with 1 and 0 and is false for every
  input, so the values are processed.
\<close>

theorem binarize_never_out_of_range:
  "\<not> range_guard g \<and> binarize g mode draws \<noteq> Inl PatternOutOfRange"
  by (simp add: binarize_def range_guard_False floyd_steinberg_in_range jjn_in_range
      random_dither_in_range)

theorem binarize_never_out_of_range_witness:
  "binarize [[3, -2], [1 / 2, 7]] ''round'' [] = Inr [[True, True], [False, True]]
   \<and> binarize [[3, -2], [1 / 2, 7]] ''round'' [] \<noteq> Inl PatternOutOfRange"
proof -
  have run: "binarize [[3, -2], [1 / 2, 7]] ''round'' [] = Inr [[True, True], [False, True]]"
    by code_simp
  have ok: "binarize [[3, -2], [1 / 2, 7]] ''round'' [] \<noteq> Inl PatternOutOfRange"
    using binarize_never_out_of_range [of "[[3, -2], [1 / 2, 7]]" "''round''" "[]"] by blast
  show ?thesis by (rule conjI [OF run ok])
qed

subsection \<open>binarize: the Floyd-Steinberg kernel\<close>

text \<open>
  C9: the claim is that for an array of any shape the four Floyd-Steinberg terms are
  added exactly where their target lies inside the array. The source bounds the
  lower-right term by \<^verbatim>\<open>jj < (ny - 1)\<close>, the number of rows, where the column bound
  \<^verbatim>\<open>nx - 1\<close> belongs. On a 3-by-2 array the term is written outside the array and
  NumPy raises IndexError; on a 2-by-3 array the term of pixel (0, 1) for pixel (1, 2) is
  dropped and the binary result differs from the kernel of the claim.
\<close>

theorem floyd_steinberg_lower_right_bound:
  "binarize [[0, 0], [0, 0], [0, 0]] ''floyd-steinberg'' [] = Inl IndexError
   \<and> floyd_steinberg_spec [[0, 0], [0, 0], [0, 0]]
       = Inr [[False, False], [False, False], [False, False]]
   \<and> binarize [[0, 2 / 5, 0], [0, 0, 7 / 20]] ''floyd-steinberg'' []
       = Inr [[False, False, False], [False, False, False]]
   \<and> floyd_steinberg_spec [[0, 2 / 5, 0], [0, 0, 7 / 20]]
       = Inr [[False, False, False], [False, False, True]]"
proof -
  have a: "binarize [[0, 0], [0, 0], [0, 0]] ''floyd-steinberg'' [] = Inl IndexError"
    by code_simp
  have b: "floyd_steinberg_spec [[0, 0], [0, 0], [0, 0]]
       = Inr [[False, False], [False, False], [False, False]]"
    by code_simp
  have c: "binarize [[0, 2 / 5, 0], [0, 0, 7 / 20]] ''floyd-steinberg'' []
       = Inr [[False, False, False], [False, False, False]]"
    by code_simp
  have d: "floyd_steinberg_spec [[0, 2 / 5, 0], [0, 0, 7 / 20]]
       = Inr [[False, False, False], [False, False, True]]"
    by code_simp
  show ?thesis by (intro conjI a b c d)
qed

subsection \<open>find_rational_approx_angle: the recorded approximations\<close>








lemma farey_loop_returns:
  "0 < snd lb \<Longrightarrow> 0 < snd ub \<Longrightarrow> \<exists>r. farey_loop slope nmax lb ub xs = Some r"
proof (induction "nat (nmax - (snd lb + snd ub))" arbitrary: lb ub xs rule: less_induct)
  case less
  let ?m = "(fst lb + fst ub, snd lb + snd ub)"
  show ?case
  proof (cases "nmax \<le> snd lb + snd ub")
    case True
    then show ?thesis by (subst farey_loop.simps) (simp add: Let_def)
  next
    case False
    have nz: "snd lb + snd ub \<noteq> 0" using less.prems by simp
    define hit where "hit = (frac_val ?m = slope)"
    define xs1 where "xs1 = (if hit then xs @ [?m] else xs)"
    define lb1 where "lb1 = (if hit then ?m else lb)"
    define ub1 where "ub1 = (if hit then ?m else ub)"
    have unfold: "farey_loop slope nmax lb ub xs =
           (if slope < frac_val ?m
              then (case record_bound slope ?m xs1 of Inl e \<Rightarrow> Some (Inl e)
                    | Inr xs2 \<Rightarrow> farey_loop slope nmax lb1 ?m xs2)
              else (case record_bound slope ?m xs1 of Inl e \<Rightarrow> Some (Inl e)
                    | Inr xs2 \<Rightarrow> farey_loop slope nmax ?m ub1 xs2))"
      using False nz unfolding hit_def xs1_def lb1_def ub1_def
      by (subst farey_loop.simps) (simp only: Let_def if_False)
    have pos1: "0 < snd lb1" "0 < snd ub1" "0 < snd ?m"
      using less.prems by (auto simp: lb1_def ub1_def)
    have dec1: "nat (nmax - (snd lb1 + snd ?m)) < nat (nmax - (snd lb + snd ub))"
      using less.prems False by (auto simp: lb1_def)
    have dec2: "nat (nmax - (snd ?m + snd ub1)) < nat (nmax - (snd lb + snd ub))"
      using less.prems False by (auto simp: ub1_def)
    show ?thesis
    proof (cases "record_bound slope ?m xs1")
      case (Inl e)
      then show ?thesis by (simp add: unfold)
    next
      case (Inr xs2)
      from less.hyps [OF dec1 pos1(1) pos1(3)]
      obtain r1 where r1: "farey_loop slope nmax lb1 ?m xs2 = Some r1" by blast
      from less.hyps [OF dec2 pos1(3) pos1(2)]
      obtain r2 where r2: "farey_loop slope nmax ?m ub1 xs2 = Some r2" by blast
      show ?thesis by (simp add: unfold Inr r1 r2)
    qed
  qed
qed






lemma find_rational_approx_angle_returns:
  "\<exists>r. find_rational_approx_angle tan_angle_pos quadrant nmax = Some r"
proof -
  obtain r where "farey_loop (farey_slope tan_angle_pos) nmax (0, 1) (1, 1) [] = Some r"
    using farey_loop_returns [of "(0, 1)" "(1, 1)" "farey_slope tan_angle_pos" nmax "[]"] by auto
  then show ?thesis
    by (cases r) (simp_all add: find_rational_approx_angle_def Let_def)
qed

subsection \<open>reduce_basis\<close>


lemma cross_swap: "cross b a = - cross a b"
  by (simp add: cross_def)

lemma norm2_nonneg: "0 \<le> norm2 a"
  by (simp add: norm2_def dot_def)









subsection \<open>get_sim_unit_cell: the number of "on" pixels\<close>

lemma get_unit_cell_count:
  assumes "get_unit_cell vec_a vec_b = Inr (c, x, y)"
  shows "int (count_cells c) = \<bar>cross (as_int_vec vec_a) (as_int_vec vec_b)\<bar>
         \<and> list_all (\<lambda>v. v = None \<or> v = Some 0) (concat c)
         \<and> list_all (\<lambda>r. length r = length x) c"
proof -
  let ?va = "as_int_vec vec_a" and ?vb = "as_int_vec vec_b"
  let ?c = "map (\<lambda>yy. map (\<lambda>xx. if test_in_cell (xx, yy) ?va ?vb then Some (0::rat) else None)
                 (cell_coords (fst ?va) (fst ?vb))) (cell_coords (snd ?va) (snd ?vb))"
  from assms have c: "c = ?c" and n: "int (count_cells ?c) = \<bar>cross ?va ?vb\<bar>"
    and x: "x = cell_coords (fst ?va) (fst ?vb)"
    by (auto simp: get_unit_cell_def Let_def cross_def split: if_splits)
  have "list_all (\<lambda>v. v = None \<or> v = Some 0) (concat ?c)"
    by (auto simp: list_all_iff)
  moreover have "list_all (\<lambda>r. length r = length x) ?c"
    by (auto simp: list_all_iff x)
  ultimately show ?thesis using c n by simp
qed

lemma shape1_rect: "list_all (\<lambda>r. length r = w) c \<Longrightarrow> c \<noteq> [] \<Longrightarrow> shape1 c = w"
  by (cases c) (simp_all add: shape1_def)

lemma rect_as_table:
  assumes "list_all (\<lambda>r. length r = w) c"
  shows "c = map (\<lambda>i. map (\<lambda>j. c ! i ! j) [0..<w]) [0..<length c]"
proof (rule nth_equalityI)
  show "length c = length (map (\<lambda>i. map (\<lambda>j. c ! i ! j) [0..<w]) [0..<length c])" by simp
next
  fix i assume i: "i < length c"
  then have "length (c ! i) = w" using assms by (simp add: list_all_length)
  then have "c ! i = map (\<lambda>j. c ! i ! j) [0..<w]"
    by (intro nth_equalityI) simp_all
  with i show "c ! i = map (\<lambda>i. map (\<lambda>j. c ! i ! j) [0..<w]) [0..<length c] ! i" by simp
qed

lemma count_table:
  "length (filter P (concat (map (\<lambda>i. map (f i) js) is)))
     = sum_list (map (\<lambda>i. length (filter (\<lambda>j. P (f i j)) js)) is)"
  by (induction "is") (simp_all add: filter_map comp_def)

lemma tri_state_counts:
  assumes "list_all (\<lambda>v. v = None \<or> v = Some 0 \<or> v = Some (1::rat)) vs"
  shows "sum_list (map (\<lambda>v. case v of None \<Rightarrow> 0 | Some u \<Rightarrow> u) vs)
           = of_nat (length (filter (\<lambda>v. v = Some 1) vs))
         \<and> length (filter (\<lambda>v. case v of None \<Rightarrow> False | Some u \<Rightarrow> u \<ge> 0) vs)
           = length (filter (\<lambda>v. v \<noteq> None) vs)"
  using assms by (induction vs) auto

lemma tri_state_cell:
  assumes "tri_state c"
  shows "cell_nansum c = of_nat (count_on c)" and "count_nonneg c = count_cells c"
  using tri_state_counts [of "concat c"] assms
  by (simp_all add: tri_state_def cell_nansum_def count_on_def count_nonneg_def count_cells_def)

lemma embed_sub_props:
  assumes emb: "embed_sub c sub iy ix = Inr c'"
    and c01: "list_all (\<lambda>v. v = None \<or> v = Some 0) (concat c)"
    and rect: "list_all (\<lambda>r. length r = w) c"
    and sub1: "list_all (\<lambda>v. v = None \<or> v = Some 1) (concat sub)"
    and rsub: "list_all (\<lambda>r. length r = shape1 sub) sub"
  shows "tri_state c' \<and> count_cells c' = count_cells c"
proof (cases "c = []")
  case True
  with emb show ?thesis
    by (simp add: embed_sub_def shape0_def tri_state_def count_cells_def split: if_splits)
next
  case False
  have w: "shape1 c = w" by (rule shape1_rect [OF rect False])
  define g where "g i j v = (if iy \<le> i \<and> i < iy + shape0 sub \<and> ix \<le> j \<and> j < ix + shape1 sub
                  then nan_add v (nansum2 (sub ! (i - iy) ! (j - ix)) v) else v)" for i j v
  from emb have c': "c' = map (\<lambda>i. map (\<lambda>j. g i j (c ! i ! j)) [0..<w]) [0..<length c]"
    by (simp add: embed_sub_def g_def w shape0_def split: if_splits)
  have centry: "c ! i ! j = None \<or> c ! i ! j = Some 0" if "i < length c" "j < w" for i j
  proof -
    from that rect have "j < length (c ! i)" by (simp add: list_all_length)
    with that have "c ! i ! j \<in> set (concat c)" by (auto intro!: bexI [of _ "c ! i"])
    with c01 show ?thesis by (auto simp: list_all_iff)
  qed
  have sentry: "sub ! i ! j = None \<or> sub ! i ! j = Some 1"
    if "i < shape0 sub" "j < shape1 sub" for i j
  proof -
    from that rsub have "j < length (sub ! i)" by (simp add: list_all_length shape0_def)
    with that have "sub ! i ! j \<in> set (concat sub)"
      by (auto simp: shape0_def intro!: bexI [of _ "sub ! i"])
    with sub1 show ?thesis by (auto simp: list_all_iff)
  qed
  have gtri: "g i j (c ! i ! j) = None \<or> g i j (c ! i ! j) = Some 0 \<or> g i j (c ! i ! j) = Some 1"
    and gnone: "(g i j (c ! i ! j) \<noteq> None) = (c ! i ! j \<noteq> None)"
    if "i < length c" "j < w" for i j
  proof -
    show "g i j (c ! i ! j) = None \<or> g i j (c ! i ! j) = Some 0 \<or> g i j (c ! i ! j) = Some 1"
    proof (cases "iy \<le> i \<and> i < iy + shape0 sub \<and> ix \<le> j \<and> j < ix + shape1 sub")
      case True
      then have "i - iy < shape0 sub" "j - ix < shape1 sub" by auto
      from sentry [OF this] centry [OF that] True show ?thesis
        by (auto simp: g_def nan_add_def nansum2_def)
    next
      case False
      with centry [OF that] show ?thesis by (auto simp: g_def)
    qed
    show "(g i j (c ! i ! j) \<noteq> None) = (c ! i ! j \<noteq> None)"
      by (auto simp: g_def nan_add_def split: option.splits)
  qed
  have "tri_state c'"
    unfolding tri_state_def c' using gtri by (auto simp: list_all_iff)
  moreover have "count_cells c' = count_cells c"
  proof -
    have "count_cells c' = sum_list (map (\<lambda>i. length (filter (\<lambda>j. g i j (c ! i ! j) \<noteq> None) [0..<w])) [0..<length c])"
      unfolding count_cells_def c' by (rule count_table)
    also have "\<dots> = sum_list (map (\<lambda>i. length (filter (\<lambda>j. c ! i ! j \<noteq> None) [0..<w])) [0..<length c])"
      by (intro arg_cong [where f = sum_list] map_cong refl arg_cong [where f = length] filter_cong)
         (simp_all add: gnone del: not_None_eq)
    also have "\<dots> = length (filter (\<lambda>v. v \<noteq> None) (concat (map (\<lambda>i. map (\<lambda>j. c ! i ! j) [0..<w]) [0..<length c])))"
      by (rule count_table [symmetric])
    also have "\<dots> = count_cells c"
      unfolding count_cells_def using rect_as_table [OF rect] by simp
    finally show ?thesis .
  qed
  ultimately show ?thesis by simp
qed


text \<open>
  C5: get_sim_unit_cell either returns the cell it constructed or raises. The constructed
  cell holds only 0, 1 and NaN, and the number of its pixels that are not NaN is the cell
  area \<open>|cross(vec_a, vec_b)|\<close>. The cell is returned exactly when the number of its
  "on" pixels equals the cell area divided by \<open>nphases\<close>; when the count deviates,
  the error PhaseCellMismatch is raised in place of the cell.
\<close>

theorem sim_unit_cell_on_count:
  assumes "sim_cell_construct vec_a vec_b nphases = Inr (c, x, y)"
  shows "tri_state c
         \<and> int (count_cells c) = \<bar>cross (as_int_vec vec_a) (as_int_vec vec_b)\<bar>
         \<and> get_sim_unit_cell vec_a vec_b nphases
             = (if (of_nat (count_on c) :: rat) = of_nat (count_cells c) / of_int nphases
                then Inr (c, x, y) else Inl PhaseCellMismatch)"
proof -
  from assms obtain c0 x0 y0 s0 xs ys iy ix where
    full: "get_unit_cell vec_a vec_b = Inr (c0, x0, y0)"
    and sub: "get_unit_cell vec_a (fst vec_b / of_int nphases, snd vec_b / of_int nphases)
                = Inr (s0, xs, ys)"
    and emb: "embed_sub c0 (map (map (\<lambda>v. case v of None \<Rightarrow> None | Some _ \<Rightarrow> Some 1)) s0) iy ix = Inr c"
    by (auto simp: sim_cell_construct_def ebind_def Let_def split: if_splits sum.splits prod.splits)
  let ?sub = "map (map (\<lambda>v. case v of None \<Rightarrow> None | Some _ \<Rightarrow> Some (1::rat))) s0"
  from get_unit_cell_count [OF full]
  have n0: "int (count_cells c0) = \<bar>cross (as_int_vec vec_a) (as_int_vec vec_b)\<bar>"
    and c01: "list_all (\<lambda>v. v = None \<or> v = Some 0) (concat c0)"
    and rect: "list_all (\<lambda>r. length r = length x0) c0" by simp_all
  from get_unit_cell_count [OF sub]
  have rs: "list_all (\<lambda>r. length r = length xs) s0" by simp
  have sub1: "list_all (\<lambda>v. v = None \<or> v = Some 1) (concat ?sub)"
    by (auto simp: list_all_iff split: option.splits)
  have rsub: "list_all (\<lambda>r. length r = shape1 ?sub) ?sub"
  proof (cases s0)
    case Nil
    then show ?thesis by simp
  next
    case (Cons r rest)
    with rs show ?thesis by (auto simp: shape1_def list_all_iff)
  qed
  from embed_sub_props [OF emb c01 rect sub1 rsub]
  have tri: "tri_state c" and cnt: "count_cells c = count_cells c0" by simp_all
  from tri_state_cell [OF tri]
  have ns: "cell_nansum c = of_nat (count_on c)" and nn: "count_nonneg c = count_cells c"
    by simp_all
  have "get_sim_unit_cell vec_a vec_b nphases
             = (if (of_nat (count_on c) :: rat) = of_nat (count_cells c) / of_int nphases
                then Inr (c, x, y) else Inl PhaseCellMismatch)"
    by (simp add: get_sim_unit_cell_def assms ebind_def phase_check_def ns nn)
  with tri cnt n0 show ?thesis by simp
qed


theorem sim_unit_cell_on_count_witness:
  "sim_cell_construct (1, 2) (- 4, 2) 2
     = Inr ([[None, None, None, Some 1, None],
             [None, Some 0, Some 1, Some 1, None],
             [Some 0, Some 0, Some 1, Some 1, None],
             [Some 0, Some 0, None, None, None]], [- 3, - 2, - 1, 0, 1], [0, 1, 2, 3])
   \<and> get_sim_unit_cell (1, 2) (- 4, 2) 2
     = Inr ([[None, None, None, Some 1, None],
             [None, Some 0, Some 1, Some 1, None],
             [Some 0, Some 0, Some 1, Some 1, None],
             [Some 0, Some 0, None, None, None]], [- 3, - 2, - 1, 0, 1], [0, 1, 2, 3])
   \<and> int (count_cells [[None, None, None, Some 1, None],
             [None, Some 0, Some 1, Some 1, None],
             [Some 0, Some 0, Some 1, Some 1, None],
             [Some 0, Some 0, None, None, None]]) = \<bar>cross (as_int_vec (1, 2)) (as_int_vec (- 4, 2))\<bar>"
proof -
  let ?c = "[[None, None, None, Some 1, None],
             [None, Some 0, Some 1, Some 1, None],
             [Some 0, Some 0, Some 1, Some 1, None],
             [Some 0, Some 0, None, None, None :: rat option]]"
  have run: "sim_cell_construct (1, 2) (- 4, 2) 2 = Inr (?c, [- 3, - 2, - 1, 0, 1], [0, 1, 2, 3])"
    by code_simp
  have on: "(of_nat (count_on ?c) :: rat) = of_nat (count_cells ?c) / of_int 2"
    by code_simp
  from sim_unit_cell_on_count [OF run] on run show ?thesis by simp
qed

subsection \<open>get_unit_cell: the tests on the basis\<close>

lemma get_unit_cell_rejects_vec_a:
  "\<not> is_integer (fst vec_a) \<or> \<not> is_integer (snd vec_a)
     \<Longrightarrow> get_unit_cell vec_a vec_b = Inl NotInteger"
  by (auto simp: get_unit_cell_def components_def)

lemma get_unit_cell_rejects_dependent:
  "is_integer (fst vec_a) \<Longrightarrow> is_integer (snd vec_a)
     \<Longrightarrow> cross (as_int_vec vec_a) (as_int_vec vec_b) = 0
     \<Longrightarrow> get_unit_cell vec_a vec_b = Inl LinearlyDependent"
  by (simp add: get_unit_cell_def components_def)

text \<open>
  C6: the claim is that get_unit_cell raises whenever a component of \<open>vec_a\<close> or of
  \<open>vec_b\<close> is not an integer. The loop of the source reads
  \<^verbatim>\<open>for vecs in [vec_a, vec_b]: for v in vec_a\<close>, so \<open>vec_b\<close> is never tested: the
  vector (0.5, 1.5) is truncated to (0, 1) by the conversion to an integer array and a
  cell is returned.
\<close>

theorem get_unit_cell_accepts_fractional_vec_b:
  "\<not> is_integer (1 / 2) \<and> get_unit_cell (1, 0) (1 / 2, 3 / 2) = Inr ([[Some 0]], [0], [0])"
proof -
  have a: "\<not> is_integer (1 / 2)" by code_simp
  have b: "get_unit_cell (1, 0) (1 / 2, 3 / 2) = Inr ([[Some 0]], [0], [0])" by code_simp
  show ?thesis by (rule conjI [OF a b])
qed

subsection \<open>get_unit_cell: the area invariant\<close>

lemma np_round_close: "\<bar>of_int (np_round z) - z\<bar> \<le> 1 / 2"
proof -
  define f where "f = \<lfloor>z\<rfloor>"
  have b: "of_int f \<le> z" "z < of_int f + 1" unfolding f_def by linarith+
  have r: "np_round z = (if z - of_int f < 1 / 2 then f else if 1 / 2 < z - of_int f then f + 1
                         else if even f then f else f + 1)"
    by (simp add: np_round_def Let_def f_def)
  consider (lo) "np_round z = f" "z - of_int f \<le> 1 / 2"
    | (hi) "np_round z = f + 1" "1 / 2 \<le> z - of_int f"
  proof (cases "z - of_int f < 1 / 2")
    case True
    with r have "np_round z = f" by simp
    with True lo show ?thesis by simp
  next
    case False
    show ?thesis
    proof (cases "1 / 2 < z - of_int f")
      case True
      with False r have "np_round z = f + 1" by simp
      with True hi show ?thesis by simp
    next
      case half: False
      with False have e: "z - of_int f = 1 / 2" by simp
      with r have "np_round z = f \<or> np_round z = f + 1" by simp
      with e lo hi show ?thesis by auto
    qed
  qed
  then show ?thesis
  proof cases
    case lo
    with b show ?thesis by simp
  next
    case hi
    have "of_int (np_round z) - z = of_int f + 1 - z" using hi(1) by simp
    with b hi(2) show ?thesis by simp
  qed
qed

lemma np_round_of_int: "np_round (of_int k) = k"
  by (simp add: np_round_def Let_def)

lemma round_dec_of_int: "round_dec (of_int y) = of_int y"
proof -
  have "(of_int y :: rat) * 10 ^ precision = of_int (y * 10 ^ precision)" by simp
  then have "np_round (of_int y * 10 ^ precision) = y * 10 ^ precision"
    by (simp only: np_round_of_int)
  then show ?thesis by (simp add: round_dec_def)
qed

lemma quotient_gap:
  fixes n d y :: int
  assumes "d \<noteq> 0" "(of_int n :: rat) / of_int d \<noteq> of_int y"
  shows "1 / of_int \<bar>d\<bar> \<le> \<bar>(of_int n :: rat) / of_int d - of_int y\<bar>"
proof -
  have eq: "(of_int n :: rat) / of_int d - of_int y = of_int (n - y * d) / of_int d"
    using assms(1) by (simp add: field_simps)
  have "n - y * d \<noteq> 0"
  proof
    assume "n - y * d = 0"
    then have "n = y * d" by simp
    with assms show False by simp
  qed
  then have "1 \<le> \<bar>n - y * d\<bar>" by simp
  then have "(1 :: rat) \<le> of_int \<bar>n - y * d\<bar>" by (metis of_int_1_le_iff)
  then have "1 / of_int \<bar>d\<bar> \<le> (of_int \<bar>n - y * d\<bar> :: rat) / of_int \<bar>d\<bar>"
    using assms(1) by (simp add: divide_right_mono)
  also have "\<dots> = \<bar>(of_int (n - y * d) :: rat) / of_int d\<bar>" by simp
  finally show ?thesis by (simp only: eq)
qed

lemma round_dec_sign:
  fixes n d y :: int
  assumes d: "d \<noteq> 0" "\<bar>d\<bar> < 10 ^ precision"
  defines "q \<equiv> (of_int n :: rat) / of_int d"
  shows "(round_dec q > of_int y) = (q > of_int y)"
    and "(round_dec q = of_int y) = (q = of_int y)"
proof -
  let ?S = "(10 :: rat) ^ precision"
  have S: "0 < ?S" by simp
  have dS: "(of_int \<bar>d\<bar> :: rat) < ?S"
  proof -
    have "(of_int \<bar>d\<bar> :: rat) < of_int (10 ^ precision)" using d(2) by (simp only: of_int_less_iff)
    then show ?thesis by simp
  qed
  have dpos: "(0 :: rat) < of_int \<bar>d\<bar>" using d(1) by simp
  have close: "\<bar>of_int (np_round (q * ?S)) - q * ?S\<bar> \<le> 1 / 2" by (rule np_round_close)
  have rd: "round_dec q = of_int (np_round (q * ?S)) / ?S" by (simp add: round_dec_def)
  have far: "1 < \<bar>q - of_int y\<bar> * ?S" if "q \<noteq> of_int y"
  proof -
    from quotient_gap [OF d(1)] that have "1 / of_int \<bar>d\<bar> \<le> \<bar>q - of_int y\<bar>" by (simp add: q_def)
    then have "1 \<le> \<bar>q - of_int y\<bar> * of_int \<bar>d\<bar>" using dpos by (simp add: field_simps)
    also have "\<dots> < \<bar>q - of_int y\<bar> * ?S"
      using dS that by (intro mult_strict_left_mono) simp_all
    finally show ?thesis .
  qed
  have gt: "round_dec q > of_int y" if "q > of_int y"
  proof -
    from far that have "1 < (q - of_int y) * ?S" by simp
    then have "of_int y * ?S + 1 < q * ?S" by (simp add: algebra_simps)
    with close have "of_int y * ?S < of_int (np_round (q * ?S))" by linarith
    then show ?thesis using S by (simp add: rd field_simps)
  qed
  have lt: "round_dec q < of_int y" if "q < of_int y"
  proof -
    from far that have "1 < (of_int y - q) * ?S" by simp
    then have "q * ?S + 1 < of_int y * ?S" by (simp add: algebra_simps)
    with close have "of_int (np_round (q * ?S)) < of_int y * ?S" by linarith
    then show ?thesis using S by (simp add: rd field_simps)
  qed
  have eq: "round_dec q = of_int y" if "q = of_int y"
    using that by (simp add: round_dec_of_int)
  show "(round_dec q > of_int y) = (q > of_int y)"
    using gt lt eq by (cases "q < of_int y"; cases "q = of_int y") force+
  show "(round_dec q = of_int y) = (q = of_int y)"
    using gt lt eq by (cases "q < of_int y"; cases "q = of_int y") force+
qed

lemma quotient_cmp:
  fixes a d y :: int
  assumes "d \<noteq> 0"
  shows "((of_int a :: rat) / of_int d > of_int y) = (if 0 < d then y * d < a else a < y * d)"
    and "((of_int a :: rat) / of_int d = of_int y) = (a = y * d)"
proof -
  have lt: "((of_int y :: rat) * of_int d < of_int a) = (y * d < a)"
    by (metis of_int_less_iff of_int_mult)
  have gt: "((of_int a :: rat) < of_int y * of_int d) = (a < y * d)"
    by (metis of_int_less_iff of_int_mult)
  have eq: "((of_int a :: rat) = of_int y * of_int d) = (a = y * d)"
    by (metis of_int_eq_iff of_int_mult)
  show "((of_int a :: rat) / of_int d > of_int y) = (if 0 < d then y * d < a else a < y * d)"
  proof (cases "0 < d")
    case True
    then show ?thesis by (simp add: pos_less_divide_eq lt)
  next
    case False
    with assms have "d < 0" by simp
    then show ?thesis by (simp add: neg_less_divide_eq gt)
  qed
  show "((of_int a :: rat) / of_int d = of_int y) = (a = y * d)"
    using assms by (simp add: divide_eq_eq eq)
qed

lemma line_origin: "line x (0, 0) v = of_int (snd v * x) / of_int (fst v)"
  by (simp add: line_def)

lemma line_far: "line x w (vadd v w) = of_int (snd v * x + cross v w) / of_int (fst v)"
proof -
  have "(snd (vadd v w) - snd w) * x + snd w * fst (vadd v w) - fst w * snd (vadd v w)
          = snd v * x + cross v w"
    by (simp add: vadd_def cross_def algebra_simps)
  moreover have "fst (vadd v w) - fst w = fst v" by (simp add: vadd_def)
  ultimately show ?thesis by (simp only: line_def)
qed

lemma in01_scale: "c \<noteq> 0 \<Longrightarrow> in01 (c * x) (c * w) = in01 x w"
  by (cases "0 < c") (auto simp: in01_def mult_less_cancel_left mult_le_cancel_left zero_le_mult_iff mult_le_0_iff)

lemma in_strip_exact:
  assumes nz: "cross v w \<noteq> 0" and small: "\<bar>fst v\<bar> < 10 ^ precision"
  shows "in_strip p v w = in01 (cross v p) (cross v w)"
proof (cases "fst v = 0")
  case False
  define X where "X = snd v * fst p"
  define Y where "Y = snd p * fst v"
  define D where "D = cross v w"
  have f: "cross v p = Y - X" by (simp add: cross_def X_def Y_def mult.commute)
  note rs = round_dec_sign [OF False small]
  have g1: "(round_dec (line (fst p) (0, 0) v) > round_dec (of_int (snd p)))
              = (if 0 < fst v then Y < X else X < Y)"
    unfolding round_dec_of_int line_origin rs(1) quotient_cmp(1) [OF False] X_def Y_def ..
  have e1: "(round_dec (line (fst p) (0, 0) v) = round_dec (of_int (snd p))) = (X = Y)"
    unfolding round_dec_of_int line_origin rs(2) quotient_cmp(2) [OF False] X_def Y_def ..
  have g2: "(round_dec (line (fst p) w (vadd v w)) > round_dec (of_int (snd p)))
              = (if 0 < fst v then Y < X + D else X + D < Y)"
    unfolding round_dec_of_int line_far rs(1) quotient_cmp(1) [OF False] X_def Y_def D_def ..
  have e2: "(round_dec (line (fst p) w (vadd v w)) = round_dec (of_int (snd p))) = (X + D = Y)"
    unfolding round_dec_of_int line_far rs(2) quotient_cmp(2) [OF False] X_def Y_def D_def ..
  have "in_strip p v w = (((if 0 < fst v then Y < X else X < Y)
                             \<noteq> (if 0 < fst v then Y < X + D else X + D < Y) \<or> X = Y)
                          \<and> X + D \<noteq> Y)"
    using False by (simp add: in_strip_def Let_def g1 e1 g2 e2)
  also have "\<dots> = in01 (Y - X) D"
    using nz by (auto simp: in01_def D_def)
  finally show ?thesis by (simp add: f D_def)
next
  case True
  have D: "cross v w = (- snd v) * fst w" and f: "cross v p = (- snd v) * fst p"
    using True by (simp_all add: cross_def)
  from nz D have c: "- snd v \<noteq> 0" by auto
  have r0: "round_dec (of_int (fst p)) > 0 \<longleftrightarrow> fst p > 0"
    "round_dec (of_int (fst p)) = 0 \<longleftrightarrow> fst p = 0"
    "round_dec (of_int (fst p)) > round_dec (of_int (fst w)) \<longleftrightarrow> fst p > fst w"
    "round_dec (of_int (fst p)) = round_dec (of_int (fst w)) \<longleftrightarrow> fst p = fst w"
    by (simp_all add: round_dec_of_int)
  have "in_strip p v w = (((fst p > 0) \<noteq> (fst p > fst w) \<or> fst p = 0) \<and> fst p \<noteq> fst w)"
    using True by (simp add: in_strip_def Let_def r0)
  also have "\<dots> = in01 (fst p) (fst w)"
    using nz D by (auto simp: in01_def)
  also have "\<dots> = in01 (cross v p) (cross v w)"
    unfolding D f by (rule in01_scale [OF c, symmetric])
  finally show ?thesis .
qed

lemma test_in_cell_exact:
  assumes "cross va vb \<noteq> 0" "small_basis va vb"
  shows "test_in_cell p va vb = in_parallelogram p va vb"
proof -
  have "cross vb va \<noteq> 0" using assms(1) cross_swap [of va vb] by simp
  with assms show ?thesis
    by (simp add: test_in_cell_def in_parallelogram_def in_strip_exact small_basis_def)
qed

lemma in01_neg: "in01 (- f) (- D) = in01 f D"
  by (auto simp: in01_def)

lemma set_cell_coords:
  "set (cell_coords a b) =
     {(if a < 0 \<and> b \<ge> 0 then a + 1 else if a \<ge> 0 \<and> b < 0 then b + 1
       else if a < 0 \<and> b < 0 then a + b + 1 else 0)
      ..< (if a < 0 \<and> b \<ge> 0 then a + 1 else if a \<ge> 0 \<and> b < 0 then b + 1
       else if a < 0 \<and> b < 0 then a + b + 1 else 0) + (\<bar>a\<bar> + \<bar>b\<bar>)}"
proof -
  have img: "(\<lambda>i. int i + z) ` {0..<nat d} = {z..<z + d}" for z d :: int
  proof (rule set_eqI)
    fix k show "k \<in> (\<lambda>i. int i + z) ` {0..<nat d} \<longleftrightarrow> k \<in> {z..<z + d}"
    proof
      assume "k \<in> (\<lambda>i. int i + z) ` {0..<nat d}"
      then show "k \<in> {z..<z + d}" by auto
    next
      assume k: "k \<in> {z..<z + d}"
      then have "k = int (nat (k - z)) + z" "nat (k - z) \<in> {0..<nat d}" by auto
      then show "k \<in> (\<lambda>i. int i + z) ` {0..<nat d}" by (rule image_eqI)
    qed
  qed
  show ?thesis
    unfolding cell_coords_def Let_def set_map set_upt img ..
qed

lemma distinct_cell_coords: "distinct (cell_coords a b)"
  by (simp add: cell_coords_def Let_def distinct_map inj_on_def)

lemma scaled_between:
  fixes S D a :: int
  assumes "0 \<le> S" "S < D"
  shows "D * min a 0 \<le> S * a" "S * a \<le> D * max a 0"
    "a < 0 \<Longrightarrow> D * a < S * a" "0 < a \<Longrightarrow> S * a < D * a"
proof -
  show "D * min a 0 \<le> S * a"
  proof (cases "a < 0")
    case True
    then have "D * a \<le> S * a" using assms by (simp add: mult_right_mono_neg)
    with True show ?thesis by (simp add: min_def)
  next
    case False
    then have "0 \<le> S * a" using assms by simp
    with False show ?thesis by (simp add: min_def)
  qed
  show "S * a \<le> D * max a 0"
  proof (cases "0 < a")
    case True
    then have "S * a \<le> D * a" using assms by (simp add: mult_right_mono)
    with True show ?thesis by (simp add: max_def)
  next
    case False
    then have "S * a \<le> 0" using assms by (simp add: mult_le_0_iff)
    with False show ?thesis by (simp add: max_def)
  qed
  show "a < 0 \<Longrightarrow> D * a < S * a" using assms by (simp add: mult_strict_right_mono_neg)
  show "0 < a \<Longrightarrow> S * a < D * a" using assms by (simp add: mult_strict_right_mono)
qed

lemma component_in_box_pos:
  fixes S T D a b c :: int
  assumes S: "0 \<le> S" "S < D" and T: "0 \<le> T" "T < D"
    and id: "D * c = S * a + T * b" and nz: "a \<noteq> 0 \<or> b \<noteq> 0"
  shows "c \<in> set (cell_coords a b)"
proof -
  have D: "0 < D" using S by simp
  note sa = scaled_between [OF S, of a] and tb = scaled_between [OF T, of b]
  have lo: "D * (min a 0 + min b 0) \<le> D * c"
    using sa(1) tb(1) id by (simp add: distrib_left)
  have hi: "D * c \<le> D * (max a 0 + max b 0)"
    using sa(2) tb(2) id by (simp add: distrib_left)
  have lo': "min a 0 + min b 0 \<le> c" using lo D by simp
  have hi': "c \<le> max a 0 + max b 0" using hi D by simp
  have slo: "min a 0 + min b 0 < c" if "a < 0 \<or> b < 0"
  proof -
    have "D * min a 0 + D * min b 0 < S * a + T * b"
      using that
    proof
      assume "a < 0"
      then have "D * min a 0 < S * a" using sa(3) by (simp add: min_def)
      with tb(1) show ?thesis by linarith
    next
      assume "b < 0"
      then have "D * min b 0 < T * b" using tb(3) by (simp add: min_def)
      with sa(1) show ?thesis by linarith
    qed
    then have "D * (min a 0 + min b 0) < D * c" by (simp add: distrib_left id)
    then show ?thesis using D by simp
  qed
  have shi: "c < max a 0 + max b 0" if "0 < a \<or> 0 < b"
  proof -
    have "S * a + T * b < D * max a 0 + D * max b 0"
      using that
    proof
      assume "0 < a"
      then have "S * a < D * max a 0" using sa(4) by (simp add: max_def)
      with tb(2) show ?thesis by linarith
    next
      assume "0 < b"
      then have "T * b < D * max b 0" using tb(4) by (simp add: max_def)
      with sa(2) show ?thesis by linarith
    qed
    then have "D * c < D * (max a 0 + max b 0)" by (simp add: distrib_left id)
    then show ?thesis using D by simp
  qed
  show ?thesis
    unfolding set_cell_coords using lo' hi' slo shi nz
    by (auto simp: min_def max_def split: if_splits)
qed

lemma component_in_box:
  fixes S T D a b c :: int
  assumes "in01 S D" "in01 T D" "D * c = S * a + T * b" "a \<noteq> 0 \<or> b \<noteq> 0"
  shows "c \<in> set (cell_coords a b)"
proof (cases "0 < D")
  case True
  with assms show ?thesis by (intro component_in_box_pos [of S D T c a b]) (auto simp: in01_def)
next
  case False
  with assms have "0 \<le> - S" "- S < - D" "0 \<le> - T" "- T < - D" by (auto simp: in01_def)
  moreover have "(- D) * c = (- S) * a + (- T) * b" using assms(3) by simp
  ultimately show ?thesis using assms(4) by (rule component_in_box_pos)
qed

lemma parallelogram_in_box:
  assumes nz: "cross va vb \<noteq> 0" and p: "in_parallelogram p va vb"
  shows "fst p \<in> set (cell_coords (fst va) (fst vb))"
    and "snd p \<in> set (cell_coords (snd va) (snd vb))"
proof -
  let ?D = "cross va vb" and ?S = "- cross vb p" and ?T = "cross va p"
  from p have T: "in01 ?T ?D" by (simp add: in_parallelogram_def)
  from p have "in01 (cross vb p) (- ?D)" by (simp add: in_parallelogram_def cross_swap [of vb va])
  then have S: "in01 ?S ?D" using in01_neg [of "cross vb p" "- ?D"] by simp
  have idx: "?D * fst p = ?S * fst va + ?T * fst vb" by (simp add: cross_def algebra_simps)
  have idy: "?D * snd p = ?S * snd va + ?T * snd vb" by (simp add: cross_def algebra_simps)
  have nzx: "fst va \<noteq> 0 \<or> fst vb \<noteq> 0" using nz by (auto simp: cross_def)
  have nzy: "snd va \<noteq> 0 \<or> snd vb \<noteq> 0" using nz by (auto simp: cross_def)
  show "fst p \<in> set (cell_coords (fst va) (fst vb))"
    by (rule component_in_box [OF S T idx nzx])
  show "snd p \<in> set (cell_coords (snd va) (snd vb))"
    by (rule component_in_box [OF S T idy nzy])
qed

lemma card_window:
  fixes c d g :: int
  assumes d: "0 < d"
  shows "{k. c \<le> k * d \<and> k * d < c + g * d}
           = {\<lceil>(of_int c :: rat) / of_int d\<rceil> ..< \<lceil>(of_int c :: rat) / of_int d\<rceil> + g}"
proof -
  define m where "m = \<lceil>(of_int c :: rat) / of_int d\<rceil>"
  have dr: "(0 :: rat) < of_int d" using d by simp
  have lo: "(c \<le> k * d) = (m \<le> k)" for k
  proof -
    have "(m \<le> k) = ((of_int c :: rat) / of_int d \<le> of_int k)"
      unfolding m_def by (rule ceiling_le_iff)
    also have "\<dots> = ((of_int c :: rat) \<le> of_int k * of_int d)"
      using dr by (rule pos_divide_le_eq)
    also have "\<dots> = (c \<le> k * d)" by (metis of_int_le_iff of_int_mult)
    finally show ?thesis by simp
  qed
  have hi: "(k * d < c + g * d) = (k < m + g)" for k
  proof -
    have "(k < m + g) = (k - g < m)" by auto
    also have "\<dots> = (of_int (k - g) < (of_int c :: rat) / of_int d)"
      unfolding m_def by (rule less_ceiling_iff)
    also have "\<dots> = ((of_int (k - g) :: rat) * of_int d < of_int c)"
      using dr by (rule pos_less_divide_eq)
    also have "\<dots> = ((k - g) * d < c)" by (metis of_int_less_iff of_int_mult)
    also have "\<dots> = (k * d < c + g * d)" by (simp add: algebra_simps)
    finally show ?thesis by simp
  qed
  show ?thesis unfolding m_def [symmetric] by (auto simp: lo hi)
qed

lemma card_fibre:
  fixes c D1 g :: int
  assumes D1: "D1 \<noteq> 0" and g: "0 < g"
  shows "finite {k. in01 (c - k * D1) (- (g * D1))}"
    and "card {k. in01 (c - k * D1) (- (g * D1))} = nat g"
proof -
  have "\<exists>m. {k. in01 (c - k * D1) (- (g * D1))} = {m..<m + g}"
  proof (cases "0 < D1")
    case True
    then have neg: "- (g * D1) < 0" using g by simp
    have "{k. in01 (c - k * D1) (- (g * D1))} = {k. c \<le> k * D1 \<and> k * D1 < c + g * D1}"
      using neg by (auto simp: in01_def)
    then show ?thesis using card_window [OF True, of c g] by auto
  next
    case False
    with D1 have d: "0 < - D1" by simp
    then have pos: "0 < - (g * D1)" using g by (simp add: mult_pos_neg)
    have "{k. in01 (c - k * D1) (- (g * D1))}
            = {k. - c \<le> k * (- D1) \<and> k * (- D1) < - c + g * (- D1)}"
      using pos by (auto simp: in01_def)
    then show ?thesis using card_window [OF d, of "- c" g] by auto
  qed
  then obtain m where m: "{k. in01 (c - k * D1) (- (g * D1))} = {m..<m + g}" by blast
  show "finite {k. in01 (c - k * D1) (- (g * D1))}" unfolding m by simp
  show "card {k. in01 (c - k * D1) (- (g * D1))} = nat g" unfolding m by simp
qed

lemma card_in01:
  assumes "D1 \<noteq> 0"
  shows "finite {k. in01 k D1}" and "card {k. in01 k D1} = nat \<bar>D1\<bar>"
proof -
  have "{k. in01 k D1} = (if 0 < D1 then {0..<D1} else {D1<..0})"
    using assms by (auto simp: in01_def)
  then show "finite {k. in01 k D1}" and "card {k. in01 k D1} = nat \<bar>D1\<bar>"
    using assms by (auto split: if_splits)
qed

text \<open>
  The lattice-point count: the half-open parallelogram of a basis holds exactly
  \<open>|cross va vb|\<close> integer points. With \<open>g = gcd (fst va) (snd va)\<close>, \<open>u = va / g\<close>
  and a Bezout vector \<open>p1\<close> with \<open>cross u p1 = 1\<close>, the points are counted in the
  coordinates \<open>(cross u p, cross p p1)\<close>: the first takes \<open>|cross u vb|\<close> values and
  for each of them the second takes \<open>g\<close> values.
\<close>

lemma card_parallelogram:
  assumes nz: "cross va vb \<noteq> 0"
  shows "finite {p. in_parallelogram p va vb}"
    and "card {p. in_parallelogram p va vb} = nat \<bar>cross va vb\<bar>"
proof -
  define g where "g = gcd (fst va) (snd va)"
  have va_nz: "fst va \<noteq> 0 \<or> snd va \<noteq> 0" using nz by (auto simp: cross_def)
  then have g: "0 < g" unfolding g_def by (simp add: gcd_pos_int)
  define ux where "ux = fst va div g"
  define uy where "uy = snd va div g"
  have vax: "fst va = g * ux" and vay: "snd va = g * uy"
    unfolding ux_def uy_def g_def by simp_all
  obtain s t where "s * fst va + t * snd va = g"
    unfolding g_def using bezout_int [of "fst va" "snd va"] by blast
  then have "g * (s * ux + t * uy) = g * 1" by (simp add: vax vay algebra_simps)
  then have bez: "s * ux + t * uy = 1" using g by simp
  define D1 where "D1 = ux * snd vb - uy * fst vb"
  define e where "e = fst vb * s + snd vb * t"
  have D: "cross va vb = g * D1" by (simp add: cross_def D1_def vax vay algebra_simps)
  have D1: "D1 \<noteq> 0" using nz D by auto
  define psi where "psi = (\<lambda>(b :: int, a :: int). (a * ux - b * t, a * uy + b * s))"
  define phi where "phi = (\<lambda>p :: int \<times> int. (ux * snd p - uy * fst p, fst p * s + snd p * t))"
  have phi_psi: "phi (psi x) = x" for x
  proof -
    obtain b a where x: "x = (b, a)" by (cases x)
    have "ux * (a * uy + b * s) - uy * (a * ux - b * t) = b * (s * ux + t * uy)"
      by (simp add: algebra_simps)
    moreover have "(a * ux - b * t) * s + (a * uy + b * s) * t = a * (s * ux + t * uy)"
      by (simp add: algebra_simps)
    ultimately show ?thesis by (simp add: x phi_def psi_def bez)
  qed
  have psi_phi: "psi (phi p) = p" for p
  proof -
    have "(fst p * s + snd p * t) * ux - (ux * snd p - uy * fst p) * t = fst p * (s * ux + t * uy)"
      by (simp add: algebra_simps)
    moreover have "(fst p * s + snd p * t) * uy + (ux * snd p - uy * fst p) * s
                     = snd p * (s * ux + t * uy)"
      by (simp add: algebra_simps)
    ultimately show ?thesis by (simp add: phi_def psi_def bez)
  qed
  define B where "B = {b. in01 b D1}"
  define K where "K = (\<lambda>b. {a. in01 (b * e - a * D1) (- (g * D1))})"
  have member: "in_parallelogram (psi (b, a)) va vb \<longleftrightarrow> b \<in> B \<and> a \<in> K b" for b a
  proof -
    have "cross va (psi (b, a)) = g * (b * (s * ux + t * uy))"
      by (simp add: cross_def psi_def vax vay algebra_simps)
    then have c1: "cross va (psi (b, a)) = g * b" by (simp add: bez)
    have c2: "cross vb (psi (b, a)) = b * e - a * D1"
      by (simp add: cross_def psi_def e_def D1_def algebra_simps)
    have c3: "cross vb va = - (g * D1)" using D cross_swap [of vb va] by simp
    have "in01 (g * b) (g * D1) = in01 b D1" using g by (intro in01_scale) simp
    then show ?thesis by (simp add: in_parallelogram_def c1 c2 c3 D B_def K_def)
  qed
  have set_eq: "{p. in_parallelogram p va vb} = psi ` (SIGMA b:B. K b)"
  proof (rule set_eqI)
    fix p
    show "p \<in> {p. in_parallelogram p va vb} \<longleftrightarrow> p \<in> psi ` (SIGMA b:B. K b)"
    proof
      assume "p \<in> {p. in_parallelogram p va vb}"
      then have "in_parallelogram (psi (phi p)) va vb" by (simp add: psi_phi)
      then have "phi p \<in> (SIGMA b:B. K b)"
        using member [of "fst (phi p)" "snd (phi p)"] by (cases "phi p") auto
      then have "psi (phi p) \<in> psi ` (SIGMA b:B. K b)" by (rule imageI)
      then show "p \<in> psi ` (SIGMA b:B. K b)" by (simp add: psi_phi)
    next
      assume "p \<in> psi ` (SIGMA b:B. K b)"
      then obtain b a where "p = psi (b, a)" "b \<in> B" "a \<in> K b" by auto
      then show "p \<in> {p. in_parallelogram p va vb}" using member by simp
    qed
  qed
  have finB: "finite B" and cardB: "card B = nat \<bar>D1\<bar>"
    unfolding B_def using card_in01 [OF D1] by simp_all
  have finK: "finite (K b)" and cardK: "card (K b) = nat g" for b
    unfolding K_def using card_fibre [OF D1 g, of "b * e"] by simp_all
  have inj: "inj_on psi (SIGMA b:B. K b)"
    by (rule inj_on_inverseI [of _ phi]) (rule phi_psi)
  show "finite {p. in_parallelogram p va vb}"
    unfolding set_eq using finB finK by (intro finite_imageI finite_SigmaI)
  have "card {p. in_parallelogram p va vb} = card (SIGMA b:B. K b)"
    unfolding set_eq by (rule card_image [OF inj])
  also have "\<dots> = (\<Sum>b\<in>B. card (K b))"
    using finB finK by (intro card_SigmaI) simp_all
  also have "\<dots> = card B * nat g" by (simp add: cardK)
  also have "\<dots> = nat \<bar>D1\<bar> * nat g" by (simp add: cardB)
  also have "\<dots> = nat \<bar>cross va vb\<bar>"
    using g by (simp add: D abs_mult nat_mult_distrib mult.commute)
  finally show "card {p. in_parallelogram p va vb} = nat \<bar>cross va vb\<bar>" .
qed

lemma count_grid:
  assumes dx: "distinct xs" and dy: "distinct ys"
  shows "length (filter P (concat (map (\<lambda>yy. map (\<lambda>xx. f (xx, yy)) xs) ys)))
           = card {p. fst p \<in> set xs \<and> snd p \<in> set ys \<and> P (f p)}"
proof -
  let ?row = "\<lambda>yy. {xx. P (f (xx, yy))} \<inter> set xs"
  have "length (filter P (concat (map (\<lambda>yy. map (\<lambda>xx. f (xx, yy)) xs) ys)))
          = sum_list (map (\<lambda>yy. length (filter (\<lambda>xx. P (f (xx, yy))) xs)) ys)"
    by (rule count_table)
  also have "\<dots> = sum_list (map (\<lambda>yy. card (?row yy)) ys)"
    using dx by (simp add: distinct_length_filter)
  also have "\<dots> = (\<Sum>yy\<in>set ys. card (?row yy))"
    using dy by (simp add: sum_list_distinct_conv_sum_set)
  also have "\<dots> = card (SIGMA yy:set ys. ?row yy)"
    by (intro card_SigmaI [symmetric]) simp_all
  also have "\<dots> = card ((\<lambda>(yy, xx). (xx, yy)) ` (SIGMA yy:set ys. ?row yy))"
    by (intro card_image [symmetric]) (auto simp: inj_on_def)
  also have "(\<lambda>(yy, xx). (xx, yy)) ` (SIGMA yy:set ys. ?row yy)
               = {p. fst p \<in> set xs \<and> snd p \<in> set ys \<and> P (f p)}"
    by (auto simp: image_iff)
  finally show ?thesis .
qed

lemma is_integer_of_int: "is_integer (of_int k)"
  by (simp add: is_integer_def)

lemma as_int_vec_of_int_vec: "as_int_vec (of_int_vec v) = v"
  by (simp add: as_int_vec_def of_int_vec_def trunc_int_def)

lemma count_cells_parallelogram:
  assumes nz: "cross va vb \<noteq> 0" and small: "small_basis va vb"
  shows "int (count_cells (map (\<lambda>yy. map (\<lambda>xx. if test_in_cell (xx, yy) va vb
                                               then Some 0 else None)
                                   (cell_coords (fst va) (fst vb)))
                              (cell_coords (snd va) (snd vb))))
           = \<bar>cross va vb\<bar>"
proof -
  let ?xs = "cell_coords (fst va) (fst vb)" and ?ys = "cell_coords (snd va) (snd vb)"
  let ?f = "\<lambda>p. if test_in_cell p va vb then Some (0 :: rat) else None"
  have "count_cells (map (\<lambda>yy. map (\<lambda>xx. ?f (xx, yy)) ?xs) ?ys)
          = card {p. fst p \<in> set ?xs \<and> snd p \<in> set ?ys \<and> ?f p \<noteq> None}"
    unfolding count_cells_def
    by (rule count_grid [OF distinct_cell_coords distinct_cell_coords])
  also have "{p. fst p \<in> set ?xs \<and> snd p \<in> set ?ys \<and> ?f p \<noteq> None}
               = {p. in_parallelogram p va vb}"
    using parallelogram_in_box [OF nz] test_in_cell_exact [OF nz small] by auto
  also have "card \<dots> = nat \<bar>cross va vb\<bar>" by (rule card_parallelogram(2) [OF nz])
  finally show ?thesis by simp
qed

text \<open>
  C2: the unit cell array that get_unit_cell returns for an integer basis has exactly
  \<open>|va.x * vb.y - va.y * vb.x|\<close> entries that are not NaN. And get_unit_cell does return
  a cell, on the coordinate ranges of lines 327-342, for every integer basis with nonzero
  cross product whose x-components are below \<open>10^12\<close> in absolute value, the sizes for
  which rounding to 12 decimals keeps distinct quotients apart.
\<close>

theorem unit_cell_area:
  "(get_unit_cell (of_int_vec va) (of_int_vec vb) = Inr (cell, x, y)
      \<longrightarrow> int (count_cells cell) = \<bar>fst va * snd vb - snd va * fst vb\<bar>)
   \<and> (cross va vb \<noteq> 0 \<and> small_basis va vb
      \<longrightarrow> (\<exists>c. get_unit_cell (of_int_vec va) (of_int_vec vb)
                  = Inr (c, cell_coords (fst va) (fst vb), cell_coords (snd va) (snd vb))))"
proof (intro conjI impI)
  assume "get_unit_cell (of_int_vec va) (of_int_vec vb) = Inr (cell, x, y)"
  from get_unit_cell_count [OF this]
  show "int (count_cells cell) = \<bar>fst va * snd vb - snd va * fst vb\<bar>"
    by (simp add: as_int_vec_of_int_vec cross_def)
next
  assume "cross va vb \<noteq> 0 \<and> small_basis va vb"
  then have nz: "cross va vb \<noteq> 0" and small: "small_basis va vb" by simp_all
  have int_a: "\<not> list_ex (\<lambda>v. \<not> is_integer v)
                   (concat (map (\<lambda>vecs. components (of_int_vec va)) [of_int_vec va, of_int_vec vb]))"
    by (simp add: components_def of_int_vec_def is_integer_of_int)
  have cnt: "int (count_cells (map (\<lambda>yy. map (\<lambda>xx. if test_in_cell (xx, yy) va vb
                                               then Some 0 else None)
                                   (cell_coords (fst va) (fst vb)))
                              (cell_coords (snd va) (snd vb))))
           = \<bar>fst va * snd vb - snd va * fst vb\<bar>"
    using count_cells_parallelogram [OF nz small] by (simp add: cross_def)
  show "\<exists>c. get_unit_cell (of_int_vec va) (of_int_vec vb)
               = Inr (c, cell_coords (fst va) (fst vb), cell_coords (snd va) (snd vb))"
    unfolding get_unit_cell_def using int_a nz cnt
    by (simp add: as_int_vec_of_int_vec Let_def)
qed

theorem unit_cell_area_witness:
  "get_unit_cell (of_int_vec (1, 2)) (of_int_vec (- 4, 2))
     = Inr ([[None, None, None, Some 0, None],
             [None, Some 0, Some 0, Some 0, None],
             [Some 0, Some 0, Some 0, Some 0, None],
             [Some 0, Some 0, None, None, None]], [- 3, - 2, - 1, 0, 1], [0, 1, 2, 3])
   \<and> int (count_cells [[None, None, None, Some 0, None],
             [None, Some 0, Some 0, Some 0, None],
             [Some 0, Some 0, Some 0, Some 0, None],
             [Some 0, Some 0, None, None, None]]) = \<bar>fst ((1, 2) :: vec) * snd ((- 4, 2) :: vec) - snd ((1, 2) :: vec) * fst ((- 4, 2) :: vec)\<bar>
   \<and> cross (1, 2) (- 4, 2) \<noteq> 0 \<and> small_basis (1, 2) (- 4, 2)
   \<and> (\<exists>c. get_unit_cell (of_int_vec (1, 2)) (of_int_vec (- 4, 2))
                  = Inr (c, cell_coords (fst ((1, 2) :: vec)) (fst ((- 4, 2) :: vec)),
                         cell_coords (snd ((1, 2) :: vec)) (snd ((- 4, 2) :: vec))))"
proof -
  let ?c = "[[None, None, None, Some 0, None],
             [None, Some 0, Some 0, Some 0, None],
             [Some 0, Some 0, Some 0, Some 0, None],
             [Some 0, Some 0, None, None, None :: rat option]]"
  have run: "get_unit_cell (of_int_vec (1, 2)) (of_int_vec (- 4, 2))
               = Inr (?c, [- 3, - 2, - 1, 0, 1], [0, 1, 2, 3])"
    by code_simp
  have nz: "cross (1, 2) (- 4, 2) \<noteq> 0" by (simp add: cross_def)
  have small: "small_basis (1, 2) (- 4, 2)" by (simp add: small_basis_def precision_def)
  from unit_cell_area [of "(1, 2)" "(- 4, 2)" ?c "[- 3, - 2, - 1, 0, 1]" "[0, 1, 2, 3]"] run nz small
  show ?thesis by blast
qed

subsection \<open>get_sim_pattern: the divisibility error\<close>


































end
